theory Spec2Isabelle
  imports Complex_Main "HOL-Library.FSet" "HOL-Library.Multiset" "HOL-Library.Char_ord"
    "HOL-Library.List_Lexorder"
begin

section \<open>The cache engine of \<open>cachelib/lrucache.py\<close>\<close>

text \<open>
  The engine is the class \<open>LRUCache\<close>: an \<open>OrderedDict\<close> from keys to pairs
  (value, optional expiration time), a capacity \<open>max_size\<close>, an optional \<open>ttl\<close> and three
  counters. The ordered dictionary is an association list, oldest entry first; Python
  integers are \<open>int\<close>. A reading of \<open>time.time()\<close> is an argument \<open>now\<close> of the operation
  that takes it; timestamps are real numbers (the comparison of two floats is exact, the
  rounding of the one float addition in \<open>set\<close> is not modelled). The lock is not modelled:
  every operation runs to its end under it. An operation that can raise returns
  \<open>Inl (e, c)\<close>, the exception with the state the object is left in.
\<close>

datatype error = KeyError | TypeError | Raised string

subsection \<open>\<open>collections.OrderedDict\<close>\<close>

type_synonym ('k, 'e) odict = "('k \<times> 'e) list"

definition od_contains :: "('k, 'e) odict \<Rightarrow> 'k \<Rightarrow> bool" where
  "od_contains d k = (map_of d k \<noteq> None)"

definition od_remove :: "('k, 'e) odict \<Rightarrow> 'k \<Rightarrow> ('k, 'e) odict" where
  "od_remove d k = filter (\<lambda>p. fst p \<noteq> k) d"

text \<open>\<open>d[k]\<close>: raises \<open>KeyError\<close> on a missing key.\<close>

definition od_getitem :: "('k, 'e) odict \<Rightarrow> 'k \<Rightarrow> error + 'e" where
  "od_getitem d k = (case map_of d k of None \<Rightarrow> Inl KeyError | Some e \<Rightarrow> Inr e)"

text \<open>\<open>d.move_to_end(k)\<close>: raises \<open>KeyError\<close> on a missing key.\<close>

definition od_move_to_end :: "('k, 'e) odict \<Rightarrow> 'k \<Rightarrow> error + ('k, 'e) odict" where
  "od_move_to_end d k =
     (case map_of d k of
        None \<Rightarrow> Inl KeyError
      | Some e \<Rightarrow> Inr (od_remove d k @ [(k, e)]))"

text \<open>\<open>d[k] = e\<close>: a present key keeps its position, a new key goes to the end.\<close>

definition od_setitem :: "('k, 'e) odict \<Rightarrow> 'k \<Rightarrow> 'e \<Rightarrow> ('k, 'e) odict" where
  "od_setitem d k e =
     (if od_contains d k then map (\<lambda>p. if fst p = k then (fst p, e) else p) d
      else d @ [(k, e)])"

text \<open>\<open>del d[k]\<close>: raises \<open>KeyError\<close> on a missing key.\<close>

definition od_delitem :: "('k, 'e) odict \<Rightarrow> 'k \<Rightarrow> error + ('k, 'e) odict" where
  "od_delitem d k = (if od_contains d k then Inr (od_remove d k) else Inl KeyError)"

text \<open>\<open>d.popitem(last=False)\<close>: raises \<open>KeyError\<close> on an empty dictionary.\<close>

definition od_popitem_first :: "('k, 'e) odict \<Rightarrow> error + (('k \<times> 'e) \<times> ('k, 'e) odict)" where
  "od_popitem_first d = (case d of [] \<Rightarrow> Inl KeyError | p # rest \<Rightarrow> Inr (p, rest))"

subsection \<open>\<open>class LRUCache\<close>\<close>

record ('k, 'v) LRUCache =
  max_size :: int
  ttl :: "int option"
  store :: "('k, 'v \<times> real option) odict"
  hits :: int
  misses :: int
  evictions :: int

definition LRUCache_init :: "int \<Rightarrow> int option \<Rightarrow> ('k, 'v) LRUCache" where
  "LRUCache_init m t =
     \<lparr>max_size = m, ttl = t, store = [], hits = 0, misses = 0, evictions = 0\<rparr>"

definition is_expired :: "real \<Rightarrow> real option \<Rightarrow> bool" where
  "is_expired now expiration_time =
     (case expiration_time of None \<Rightarrow> False | Some t \<Rightarrow> now > t)"

function evict_if_needed ::
  "('k, 'v) LRUCache \<Rightarrow> (error \<times> ('k, 'v) LRUCache) + ('k, 'v) LRUCache" where
  "evict_if_needed c =
     (if int (length (store c)) > max_size c then
        (case od_popitem_first (store c) of
           Inl e \<Rightarrow> Inl (e, c)
         | Inr pr \<Rightarrow> evict_if_needed (c\<lparr>store := snd pr, evictions := evictions c + 1\<rparr>))
      else Inr c)"
  by pat_completeness auto
termination
  by (relation "measure (\<lambda>c. length (store c))")
     (auto simp: od_popitem_first_def split: list.splits)

declare evict_if_needed.simps [simp del]

definition LRUCache_set ::
  "('k, 'v) LRUCache \<Rightarrow> real \<Rightarrow> 'k \<Rightarrow> 'v \<Rightarrow> (error \<times> ('k, 'v) LRUCache) + ('k, 'v) LRUCache" where
  "LRUCache_set c now key val =
     (let expiration_time =
            (case ttl c of Some t \<Rightarrow> Some (now + real_of_int t) | None \<Rightarrow> None)
      in case (if od_contains (store c) key then od_move_to_end (store c) key
               else Inr (store c)) of
           Inl e \<Rightarrow> Inl (e, c)
         | Inr d \<Rightarrow> evict_if_needed (c\<lparr>store := od_setitem d key (val, expiration_time)\<rparr>))"

text \<open>\<open>get\<close> returns Python's \<open>None\<close> as \<open>None\<close> and a stored value \<open>v\<close> as \<open>Some v\<close>.\<close>

definition LRUCache_get ::
  "('k, 'v) LRUCache \<Rightarrow> real \<Rightarrow> 'k \<Rightarrow>
     (error \<times> ('k, 'v) LRUCache) + ('v option \<times> ('k, 'v) LRUCache)" where
  "LRUCache_get c now key =
     (if \<not> od_contains (store c) key then Inr (None, c\<lparr>misses := misses c + 1\<rparr>)
      else case od_getitem (store c) key of
        Inl e \<Rightarrow> Inl (e, c)
      | Inr ent \<Rightarrow>
          if is_expired now (snd ent) then
            (case od_delitem (store c) key of
               Inl e \<Rightarrow> Inl (e, c)
             | Inr d \<Rightarrow> Inr (None, c\<lparr>store := d, misses := misses c + 1\<rparr>))
          else
            (case od_move_to_end (store c) key of
               Inl e \<Rightarrow> Inl (e, c)
             | Inr d \<Rightarrow> Inr (Some (fst ent), c\<lparr>store := d, hits := hits c + 1\<rparr>)))"

definition LRUCache_stats :: "('k, 'v) LRUCache \<Rightarrow> (string \<times> int) list" where
  "LRUCache_stats c =
     [(''hits'', hits c), (''misses'', misses c), (''evictions'', evictions c),
      (''current_size'', int (length (store c)))]"

definition LRUCache_delete ::
  "('k, 'v) LRUCache \<Rightarrow> 'k \<Rightarrow> (error \<times> ('k, 'v) LRUCache) + (bool \<times> ('k, 'v) LRUCache)" where
  "LRUCache_delete c key =
     (if od_contains (store c) key then
        (case od_delitem (store c) key of
           Inl e \<Rightarrow> Inl (e, c)
         | Inr d \<Rightarrow> Inr (True, c\<lparr>store := d\<rparr>))
      else Inr (False, c))"

definition LRUCache_clear :: "('k, 'v) LRUCache \<Rightarrow> ('k, 'v) LRUCache" where
  "LRUCache_clear c = c\<lparr>store := []\<rparr>"

definition LRUCache_contains ::
  "('k, 'v) LRUCache \<Rightarrow> real \<Rightarrow> 'k \<Rightarrow> (error \<times> ('k, 'v) LRUCache) + (bool \<times> ('k, 'v) LRUCache)" where
  "LRUCache_contains c now key =
     (if \<not> od_contains (store c) key then Inr (False, c)
      else case od_getitem (store c) key of
        Inl e \<Rightarrow> Inl (e, c)
      | Inr ent \<Rightarrow>
          if is_expired now (snd ent) then
            (case od_delitem (store c) key of
               Inl e \<Rightarrow> Inl (e, c)
             | Inr d \<Rightarrow> Inr (False, c\<lparr>store := d\<rparr>))
          else Inr (True, c))"

definition LRUCache_resize ::
  "('k, 'v) LRUCache \<Rightarrow> int \<Rightarrow> (error \<times> ('k, 'v) LRUCache) + ('k, 'v) LRUCache" where
  "LRUCache_resize c new_max_size = evict_if_needed (c\<lparr>max_size := new_max_size\<rparr>)"

subsection \<open>Sequences of calls on one engine\<close>

text \<open>
  A client's calls on one engine, in order; \<open>Set\<close>, \<open>Get\<close> and \<open>Contains\<close> carry the
  reading of the clock the call takes. \<open>run\<close> stops at the first exception.
\<close>

datatype ('k, 'v) op =
    Set real 'k 'v
  | Get real 'k
  | Contains real 'k
  | Delete 'k
  | Clear
  | Resize int

fun apply_op ::
  "('k, 'v) LRUCache \<Rightarrow> ('k, 'v) op \<Rightarrow> (error \<times> ('k, 'v) LRUCache) + ('k, 'v) LRUCache" where
  "apply_op c (Set now k v) = LRUCache_set c now k v"
| "apply_op c (Get now k) = map_sum id snd (LRUCache_get c now k)"
| "apply_op c (Contains now k) = map_sum id snd (LRUCache_contains c now k)"
| "apply_op c (Delete k) = map_sum id snd (LRUCache_delete c k)"
| "apply_op c Clear = Inr (LRUCache_clear c)"
| "apply_op c (Resize n) = LRUCache_resize c n"

fun run ::
  "('k, 'v) LRUCache \<Rightarrow> ('k, 'v) op list \<Rightarrow> (error \<times> ('k, 'v) LRUCache) + ('k, 'v) LRUCache" where
  "run c [] = Inr c"
| "run c (x # xs) = (case apply_op c x of Inl e \<Rightarrow> Inl e | Inr c' \<Rightarrow> run c' xs)"

fun positive_resizes :: "('k, 'v) op list \<Rightarrow> bool" where
  "positive_resizes [] = True"
| "positive_resizes (Resize n # xs) = (0 < n \<and> positive_resizes xs)"
| "positive_resizes (_ # xs) = positive_resizes xs"

text \<open>
  What the statements below speak of: the number of entries above the capacity, the
  expiration time \<open>set\<close> computes, the capacity bound, and the state an operation leaves.
\<close>

definition excess :: "('k, 'v) LRUCache \<Rightarrow> nat" where
  "excess c = length (store c) - nat (max_size c)"

definition expiration :: "('k, 'v) LRUCache \<Rightarrow> real \<Rightarrow> real option" where
  "expiration c now = (case ttl c of Some t \<Rightarrow> Some (now + real_of_int t) | None \<Rightarrow> None)"

definition within_capacity :: "('k, 'v) LRUCache \<Rightarrow> bool" where
  "within_capacity c = (int (length (store c)) \<le> max_size c)"

definition state_of :: "(error \<times> 's) + ('a \<times> 's) \<Rightarrow> 's" where
  "state_of r = (case r of Inl ec \<Rightarrow> snd ec | Inr vc \<Rightarrow> snd vc)"


section \<open>Key derivation: \<open>make_hashable\<close>\<close>

text \<open>
  The Python values the memoizing wrapper is applied to. \<open>PObject n\<close> is an object of a
  class that keeps the default \<open>__hash__\<close> (hashable, equal to itself only);
  \<open>PUnhashable n\<close> is an object whose class has \<open>__hash__ = None\<close> and is no tuple,
  list, dict or set (a \<open>bytearray\<close>, say). The keys of a dictionary are integers or
  strings: on these \<open>sorted\<close> is determined by the language (it raises \<open>TypeError\<close> when
  both kinds occur, and orders one kind totally), whatever the sorting algorithm.
  Equality of the model's values is Python's \<open>==\<close> on them; \<open>bool\<close> and \<open>float\<close>, whose
  values equal integers, are left out. Strings are the 8-bit strings of HOL.
\<close>

datatype pykey = KInt int | KStr string

datatype pyval =
    PNone
  | PInt int
  | PStr string
  | PObject nat
  | PUnhashable nat
  | PTuple "pyval list"
  | PList "pyval list"
  | PDict "(pykey \<times> pyval) list"
  | PSet "pyval fset"
  | PFrozenset "pyval fset"

definition key_value :: "pykey \<Rightarrow> pyval" where
  "key_value k = (case k of KInt i \<Rightarrow> PInt i | KStr s \<Rightarrow> PStr s)"

text \<open>
  \<open>a < b\<close> on keys: \<open>TypeError\<close> between an integer and a string. On strings \<open><\<close> is the
  lexicographic order by character code, a proper prefix coming first.
\<close>

fun key_lt :: "pykey \<Rightarrow> pykey \<Rightarrow> error + bool" where
  "key_lt (KInt a) (KInt b) = Inr (a < b)"
| "key_lt (KStr a) (KStr b) = Inr (a < b)"
| "key_lt _ _ = Inl TypeError"

text \<open>
  \<open>sorted\<close> on (key, value) pairs whose keys differ pairwise, as the items of a dictionary
  do: the comparison of two pairs is decided by their keys. The sort is stable: each
  element goes, left to right, into the sorted prefix before the first element it is less
  than.
\<close>

fun insert_sorted ::
  "(pykey \<times> 'a) \<Rightarrow> (pykey \<times> 'a) list \<Rightarrow> error + (pykey \<times> 'a) list" where
  "insert_sorted x [] = Inr [x]"
| "insert_sorted x (y # ys) =
     (case key_lt (fst x) (fst y) of
        Inl e \<Rightarrow> Inl e
      | Inr True \<Rightarrow> Inr (x # y # ys)
      | Inr False \<Rightarrow>
          (case insert_sorted x ys of Inl e \<Rightarrow> Inl e | Inr zs \<Rightarrow> Inr (y # zs)))"

fun sorted_from ::
  "(pykey \<times> 'a) list \<Rightarrow> (pykey \<times> 'a) list \<Rightarrow> error + (pykey \<times> 'a) list" where
  "sorted_from acc [] = Inr acc"
| "sorted_from acc (x # xs) =
     (case insert_sorted x acc of Inl e \<Rightarrow> Inl e | Inr acc' \<Rightarrow> sorted_from acc' xs)"

definition py_sorted :: "(pykey \<times> 'a) list \<Rightarrow> error + (pykey \<times> 'a) list" where
  "py_sorted xs = sorted_from [] xs"

text \<open>The results of a generator, up to the first exception.\<close>

fun sequence :: "(error + 'a) list \<Rightarrow> error + 'a list" where
  "sequence [] = Inr []"
| "sequence (r # rs) =
     (case r of
        Inl e \<Rightarrow> Inl e
      | Inr x \<Rightarrow> (case sequence rs of Inl e \<Rightarrow> Inl e | Inr xs \<Rightarrow> Inr (x # xs)))"

definition item_result :: "pykey \<times> (error + pyval) \<Rightarrow> error + (pykey \<times> pyval)" where
  "item_result kv = (case snd kv of Inl e \<Rightarrow> Inl e | Inr v \<Rightarrow> Inr (fst kv, v))"

definition item_tuple :: "pykey \<times> pyval \<Rightarrow> pyval" where
  "item_tuple kv = PTuple [key_value (fst kv), snd kv]"

text \<open>
  \<open>make_hashable\<close>, branch by branch: a tuple or list becomes the tuple of its canonical
  elements; a dict becomes the sorted tuple of its canonical (key, value) pairs (a key is
  a hashable scalar, which \<open>make_hashable\<close> returns as it is); a set becomes the frozenset
  of its canonical elements; any other hashable value is returned as it is; anything else
  raises \<open>TypeError\<close>.
\<close>

primrec make_hashable :: "pyval \<Rightarrow> error + pyval" where
  "make_hashable PNone = Inr PNone"
| "make_hashable (PInt i) = Inr (PInt i)"
| "make_hashable (PStr s) = Inr (PStr s)"
| "make_hashable (PObject n) = Inr (PObject n)"
| "make_hashable (PUnhashable n) = Inl TypeError"
| "make_hashable (PTuple xs) = map_sum id PTuple (sequence (map make_hashable xs))"
| "make_hashable (PList xs) = map_sum id PTuple (sequence (map make_hashable xs))"
| "make_hashable (PDict d) =
     (case sequence (map item_result (map (map_prod id make_hashable) d)) of
        Inl e \<Rightarrow> Inl e
      | Inr items \<Rightarrow> map_sum id (\<lambda>s. PTuple (map item_tuple s)) (py_sorted items))"
| "make_hashable (PSet s) =
     (if True |\<in>| isl |`| (make_hashable |`| s) then Inl TypeError
      else Inr (PFrozenset (projr |`| (make_hashable |`| s))))"
| "make_hashable (PFrozenset s) = Inr (PFrozenset s)"

section \<open>The memoizing wrapper: \<open>cache_decorator\<close>\<close>

text \<open>
  The wrapped function works on a state \<open>'w\<close> of its own (whatever its side effects
  change) and returns a value or raises. The state of a wrapped function is its private
  engine, that state, and the list of the calls made to the underlying function so far
  (kept for the statements about how often it is invoked; the source has no such list).
  Keyword arguments are a dictionary with string keys.
\<close>

type_synonym 'w pyfun =
  "pyval list \<Rightarrow> (string \<times> pyval) list \<Rightarrow> 'w \<Rightarrow> (error \<times> 'w) + (pyval \<times> 'w)"

record 'w memo =
  cache :: "(pyval, pyval) LRUCache"
  world :: 'w
  invocations :: "(pyval list \<times> (string \<times> pyval) list) list"

definition cache_decorator :: "int option \<Rightarrow> int \<Rightarrow> 'w \<Rightarrow> 'w memo" where
  "cache_decorator t m w = \<lparr>cache = LRUCache_init m t, world = w, invocations = []\<rparr>"

definition kwargs_dict :: "(string \<times> pyval) list \<Rightarrow> pyval" where
  "kwargs_dict kwargs = PDict (map (\<lambda>kv. (KStr (fst kv), snd kv)) kwargs)"

definition make_key :: "pyval list \<Rightarrow> (string \<times> pyval) list \<Rightarrow> error + pyval" where
  "make_key args kwargs =
     (case make_hashable (PTuple args) of
        Inl e \<Rightarrow> Inl e
      | Inr a \<Rightarrow>
          (case make_hashable (kwargs_dict kwargs) of
             Inl e \<Rightarrow> Inl e
           | Inr k \<Rightarrow> Inr (PTuple [a, k])))"

definition wrapper ::
  "'w pyfun \<Rightarrow> 'w memo \<Rightarrow> real \<Rightarrow> real \<Rightarrow> pyval list \<Rightarrow> (string \<times> pyval) list \<Rightarrow>
     (error \<times> 'w memo) + (pyval \<times> 'w memo)" where
  "wrapper func st now_get now_set args kwargs =
     (case make_key args kwargs of
        Inl e \<Rightarrow> Inl (e, st)
      | Inr key \<Rightarrow>
          (case LRUCache_get (cache st) now_get key of
             Inl ec \<Rightarrow> Inl (fst ec, st\<lparr>cache := snd ec\<rparr>)
           | Inr rc \<Rightarrow>
               (let cached = (case fst rc of None \<Rightarrow> PNone | Some v \<Rightarrow> v);
                    st1 = st\<lparr>cache := snd rc\<rparr>
                in if cached \<noteq> PNone then Inr (cached, st1)
                   else
                     (let st2 = st1\<lparr>invocations := invocations st1 @ [(args, kwargs)]\<rparr>
                      in case func args kwargs (world st2) of
                           Inl ew \<Rightarrow> Inl (fst ew, st2\<lparr>world := snd ew\<rparr>)
                         | Inr vw \<Rightarrow>
                             (case LRUCache_set (cache st2) now_set key (fst vw) of
                                Inl ec \<Rightarrow>
                                  Inl (fst ec, st2\<lparr>world := snd vw, cache := snd ec\<rparr>)
                              | Inr c \<Rightarrow>
                                  Inr (fst vw, st2\<lparr>world := snd vw, cache := c\<rparr>))))))"


section \<open>Notions the statements use\<close>

text \<open>
  Two keys are comparable when \<open><\<close> between them does not raise; \<open>kless\<close> is \<open><\<close> where
  it returns. A list of items is homogeneous when its keys are comparable pairwise, and
  ascending when no later key is less than an earlier one.
\<close>

definition comparable :: "pykey \<Rightarrow> pykey \<Rightarrow> bool" where
  "comparable a b = (\<not> isl (key_lt a b))"

definition kless :: "pykey \<Rightarrow> pykey \<Rightarrow> bool" where
  "kless a b = (key_lt a b = Inr True)"

definition ascending :: "(pykey \<times> 'a) list \<Rightarrow> bool" where
  "ascending zs = sorted_wrt (\<lambda>a b. \<not> kless (fst b) (fst a)) zs"

definition homogeneous :: "(pykey \<times> 'a) list \<Rightarrow> bool" where
  "homogeneous xs = (\<forall>a\<in>set xs. \<forall>b\<in>set xs. comparable (fst a) (fst b))"




text \<open>
  Two functions to wrap: \<open>def add(a, b): return a + b\<close>, called with keyword arguments
  (as Python does, a call without integers \<open>a\<close> and \<open>b\<close> raises \<open>TypeError\<close>), and a
  function that returns \<open>None\<close>. Neither has a state.
\<close>

definition add_ab :: "unit pyfun" where
  "add_ab args kwargs w =
     (case (map_of kwargs ''a'', map_of kwargs ''b'') of
        (Some (PInt a), Some (PInt b)) \<Rightarrow> Inr (PInt (a + b), w)
      | _ \<Rightarrow> Inl (TypeError, w))"

definition returns_none :: "unit pyfun" where
  "returns_none args kwargs w = Inr (PNone, w)"



section \<open>Properties of the engine\<close>

subsection \<open>The eviction loop\<close>

lemma evict_nonneg:
  "0 \<le> max_size c \<Longrightarrow>
   evict_if_needed c =
     Inr (c\<lparr>store := drop (excess c) (store c), evictions := evictions c + int (excess c)\<rparr>)"
proof (induction c rule: evict_if_needed.induct)
  case (1 c)
  show ?case
  proof (cases "int (length (store c)) > max_size c")
    case True
    then obtain p rest where st: "store c = p # rest"
      using "1.prems" by (cases "store c") auto
    let ?c' = "c\<lparr>store := rest, evictions := evictions c + 1\<rparr>"
    have pop: "od_popitem_first (store c) = Inr (p, rest)"
      by (simp add: od_popitem_first_def st)
    have ex: "excess c = Suc (excess ?c')"
      using True "1.prems" by (simp add: excess_def st)
    have "evict_if_needed c = evict_if_needed ?c'"
      using True pop by (subst evict_if_needed.simps) simp
    also have "\<dots> = Inr (?c'\<lparr>store := drop (excess ?c') (store ?c'),
        evictions := evictions ?c' + int (excess ?c')\<rparr>)"
      using "1.IH"[OF True pop] "1.prems" by simp
    finally show ?thesis
      by (simp add: ex st)
  next
    case False
    then have "excess c = 0" by (simp add: excess_def) 
    with False show ?thesis
      by (subst evict_if_needed.simps) simp
  qed
qed

lemma evict_neg:
  "max_size c < 0 \<Longrightarrow>
   evict_if_needed c =
     Inl (KeyError, c\<lparr>store := [], evictions := evictions c + int (length (store c))\<rparr>)"
proof (induction c rule: evict_if_needed.induct)
  case (1 c)
  have gt: "int (length (store c)) > max_size c" using "1.prems" by simp
  show ?case
  proof (cases "store c")
    case Nil
    then show ?thesis using gt
      by (subst evict_if_needed.simps) (simp add: od_popitem_first_def)
  next
    case (Cons p rest)
    let ?c' = "c\<lparr>store := rest, evictions := evictions c + 1\<rparr>"
    have pop: "od_popitem_first (store c) = Inr (p, rest)"
      by (simp add: od_popitem_first_def Cons)
    have "evict_if_needed c = evict_if_needed ?c'"
      using gt pop by (subst evict_if_needed.simps) simp
    also have "\<dots> = Inl (KeyError, ?c'\<lparr>store := [],
        evictions := evictions ?c' + int (length (store ?c'))\<rparr>)"
      using "1.IH"[OF gt pop] "1.prems" by simp
    finally show ?thesis by (simp add: Cons)
  qed
qed

lemma length_after_evict:
  "0 \<le> max_size c \<Longrightarrow> int (length (drop (excess c) (store c))) \<le> max_size c"
  by (simp add: excess_def)

subsection \<open>The ordered dictionary\<close>

lemma od_contains_iff: "od_contains d k \<longleftrightarrow> k \<in> fst ` set d"
  by (simp add: od_contains_def map_of_eq_None_iff)

lemma od_move_to_end_present:
  "od_contains d k \<Longrightarrow> \<exists>e. map_of d k = Some e \<and> od_move_to_end d k = Inr (od_remove d k @ [(k, e)])"
  by (auto simp: od_contains_def od_move_to_end_def)

lemma length_od_remove_le: "length (od_remove d k) \<le> length d"
  by (simp add: od_remove_def)

lemma length_od_remove_distinct:
  "distinct (map fst d) \<Longrightarrow> od_contains d k \<Longrightarrow> Suc (length (od_remove d k)) = length d"
proof (induction d)
  case Nil
  then show ?case by (simp add: od_contains_def)
next
  case (Cons p d)
  show ?case
  proof (cases "fst p = k")
    case True
    with Cons.prems have "k \<notin> fst ` set d" by auto
    then have "filter (\<lambda>p. fst p \<noteq> k) d = d"
      by (auto simp: filter_id_conv)
    with True show ?thesis by (simp add: od_remove_def)
  next
    case False
    with Cons.prems have "od_contains d k" "distinct (map fst d)"
      by (auto simp: od_contains_iff)
    from Cons.IH[OF this(2,1)] False show ?thesis by (simp add: od_remove_def)
  qed
qed

lemma od_remove_absent: "\<not> od_contains (od_remove d k) k"
  by (auto simp: od_contains_iff od_remove_def)

lemma length_od_setitem:
  "length (od_setitem d k e) = (if od_contains d k then length d else Suc (length d))"
  by (simp add: od_setitem_def)

lemma distinct_od_remove: "distinct (map fst d) \<Longrightarrow> distinct (map fst (od_remove d k))"
  by (simp add: od_remove_def distinct_map_filter)

lemma map_fst_od_setitem_present:
  "map (fst \<circ> (\<lambda>p. if fst p = k then (fst p, e) else p)) d = map fst d"
  by (induction d) auto

lemma distinct_od_setitem:
  assumes "distinct (map fst d)"
  shows "distinct (map fst (od_setitem d k e))"
  using assms by (auto simp: od_setitem_def od_contains_iff map_fst_od_setitem_present)

subsection \<open>The operations, case by case\<close>

lemma od_remove_id: "\<not> od_contains d k \<Longrightarrow> od_remove d k = d"
  by (auto simp: od_contains_iff od_remove_def filter_id_conv)

lemma od_setitem_after_move:
  "od_setitem (od_remove d k @ [(k, e')]) k e = od_remove d k @ [(k, e)]"
proof -
  have "map (\<lambda>p. if fst p = k then (fst p, e) else p) (od_remove d k) = od_remove d k"
    by (rule map_idI) (auto simp: od_remove_def)
  then show ?thesis
    by (simp add: od_setitem_def od_contains_iff)
qed

lemma set_unfold:
  "LRUCache_set c now k v =
     evict_if_needed (c\<lparr>store := od_remove (store c) k @ [(k, (v, expiration c now))]\<rparr>)"
proof (cases "od_contains (store c) k")
  case True
  obtain e where mv: "od_move_to_end (store c) k = Inr (od_remove (store c) k @ [(k, e)])"
    using od_move_to_end_present[OF True] by blast
  have "LRUCache_set c now k v =
      evict_if_needed (c\<lparr>store := od_setitem (od_remove (store c) k @ [(k, e)]) k (v, expiration c now)\<rparr>)"
    unfolding LRUCache_set_def Let_def expiration_def using True mv by simp
  then show ?thesis
    by (simp only: od_setitem_after_move)
next
  case False
  have "LRUCache_set c now k v =
      evict_if_needed (c\<lparr>store := od_setitem (store c) k (v, expiration c now)\<rparr>)"
    unfolding LRUCache_set_def Let_def expiration_def using False by simp
  moreover have "od_setitem (store c) k (v, expiration c now) = od_remove (store c) k @ [(k, (v, expiration c now))]"
    using False by (simp add: od_setitem_def od_remove_id)
  ultimately show ?thesis by simp
qed

lemma get_unfold:
  "LRUCache_get c now k =
     (case map_of (store c) k of
        None \<Rightarrow> Inr (None, c\<lparr>misses := misses c + 1\<rparr>)
      | Some ent \<Rightarrow>
          if is_expired now (snd ent)
          then Inr (None, c\<lparr>store := od_remove (store c) k, misses := misses c + 1\<rparr>)
          else Inr (Some (fst ent),
                  c\<lparr>store := od_remove (store c) k @ [(k, ent)], hits := hits c + 1\<rparr>))"
  by (simp add: LRUCache_get_def od_contains_def od_getitem_def od_delitem_def
      od_move_to_end_def split: option.splits)

lemma contains_unfold:
  "LRUCache_contains c now k =
     (case map_of (store c) k of
        None \<Rightarrow> Inr (False, c)
      | Some ent \<Rightarrow>
          if is_expired now (snd ent)
          then Inr (False, c\<lparr>store := od_remove (store c) k\<rparr>)
          else Inr (True, c))"
  by (simp add: LRUCache_contains_def od_contains_def od_getitem_def od_delitem_def
      split: option.splits)

lemma delete_unfold:
  "LRUCache_delete c k =
     (if od_contains (store c) k then Inr (True, c\<lparr>store := od_remove (store c) k\<rparr>)
      else Inr (False, c))"
  by (simp add: LRUCache_delete_def od_delitem_def)

lemma evict_within:
  "0 \<le> max_size c \<Longrightarrow>
   \<exists>c'. evict_if_needed c = Inr c' \<and> within_capacity c' \<and> max_size c' = max_size c"
  by (simp add: evict_nonneg within_capacity_def excess_def)

lemma set_within:
  "0 \<le> max_size c \<Longrightarrow>
   \<exists>c'. LRUCache_set c now k v = Inr c' \<and> within_capacity c' \<and> max_size c' = max_size c"
  using evict_within[of "c\<lparr>store := od_remove (store c) k @ [(k, (v, expiration c now))]\<rparr>"]
  by (simp add: set_unfold)

lemma resize_within:
  "0 \<le> n \<Longrightarrow>
   \<exists>c'. LRUCache_resize c n = Inr c' \<and> within_capacity c' \<and> max_size c' = n"
  using evict_within[of "c\<lparr>max_size := n\<rparr>"] by (simp add: LRUCache_resize_def)

lemma get_within:
  "within_capacity c \<Longrightarrow>
   \<exists>r c'. LRUCache_get c now k = Inr (r, c') \<and> within_capacity c' \<and> max_size c' = max_size c"
proof (cases "map_of (store c) k")
  case None
  then show "within_capacity c \<Longrightarrow> ?thesis"
    by (simp add: get_unfold within_capacity_def)
next
  case (Some ent)
  assume w: "within_capacity c"
  have le: "length (od_remove (store c) k) \<le> length (store c)" by (rule length_od_remove_le)
  show ?thesis
  proof (cases "is_expired now (snd ent)")
    case True
    with Some w le show ?thesis by (simp add: get_unfold within_capacity_def)
  next
    case False
    have "length (od_remove (store c) k) < length (store c)"
      using Some by (auto simp: od_remove_def intro!: length_filter_less dest: map_of_SomeD)
    with Some w False show ?thesis by (simp add: get_unfold within_capacity_def)
  qed
qed

lemma contains_within:
  "within_capacity c \<Longrightarrow>
   \<exists>r c'. LRUCache_contains c now k = Inr (r, c') \<and> within_capacity c' \<and> max_size c' = max_size c"
  using length_od_remove_le[of "store c" k]
  by (auto simp: contains_unfold within_capacity_def split: option.splits)

lemma delete_within:
  "within_capacity c \<Longrightarrow>
   \<exists>r c'. LRUCache_delete c k = Inr (r, c') \<and> within_capacity c' \<and> max_size c' = max_size c"
  using length_od_remove_le[of "store c" k]
  by (auto simp: delete_unfold within_capacity_def)

lemma clear_within:
  "0 \<le> max_size c \<Longrightarrow> within_capacity (LRUCache_clear c) \<and> max_size (LRUCache_clear c) = max_size c"
  by (simp add: LRUCache_clear_def within_capacity_def)

lemma apply_op_within:
  assumes "0 < max_size c" "within_capacity c" "positive_resizes [x]"
  shows "\<exists>c'. apply_op c x = Inr c' \<and> 0 < max_size c' \<and> within_capacity c'"
proof (cases x)
  case (Set now k v)
  then show ?thesis using set_within[of c now k v] assms by auto
next
  case (Get now k)
  then show ?thesis using get_within[of c now k] assms by auto
next
  case (Contains now k)
  then show ?thesis using contains_within[of c now k] assms by auto
next
  case (Delete k)
  then show ?thesis using delete_within[of c k] assms by auto
next
  case Clear
  then show ?thesis using clear_within[of c] assms by auto
next
  case (Resize n)
  then show ?thesis using resize_within[of n c] assms by auto
qed

lemma run_within:
  "0 < max_size c \<Longrightarrow> within_capacity c \<Longrightarrow> positive_resizes ops \<Longrightarrow>
   \<exists>c'. run c ops = Inr c' \<and> 0 < max_size c' \<and> within_capacity c'"
proof (induction ops arbitrary: c)
  case Nil
  then show ?case by simp
next
  case (Cons x ops)
  have px: "positive_resizes [x]"
    using Cons.prems(3) by (cases x) simp_all
  have pops: "positive_resizes ops"
    using Cons.prems(3) by (cases x) simp_all
  from apply_op_within[OF Cons.prems(1,2) px]
  obtain c1 where c1: "apply_op c x = Inr c1" "0 < max_size c1" "within_capacity c1"
    by blast
  from Cons.IH[OF c1(2,3) pops] c1(1) show ?case by simp
qed

lemma length_od_remove_less:
  "od_contains d k \<Longrightarrow> length (od_remove d k) < length d"
  by (auto simp: od_remove_def od_contains_iff intro!: length_filter_less)

lemma set_neg:
  "max_size c < 0 \<Longrightarrow>
   LRUCache_set c now k v =
     Inl (KeyError, c\<lparr>store := [],
       evictions := evictions c + int (Suc (length (od_remove (store c) k)))\<rparr>)"
  using evict_neg[of "c\<lparr>store := od_remove (store c) k @ [(k, (v, expiration c now))]\<rparr>"]
  by (simp add: set_unfold)

lemma resize_neg:
  "n < 0 \<Longrightarrow>
   LRUCache_resize c n =
     Inl (KeyError, c\<lparr>max_size := n, store := [],
       evictions := evictions c + int (length (store c))\<rparr>)"
  using evict_neg[of "c\<lparr>max_size := n\<rparr>"] by (simp add: LRUCache_resize_def)

lemma get_evictions: "evictions (state_of (LRUCache_get c now k)) = evictions c"
  by (simp add: get_unfold state_of_def split: option.splits)

lemma contains_evictions: "evictions (state_of (LRUCache_contains c now k)) = evictions c"
  by (simp add: contains_unfold state_of_def split: option.splits)

lemma get_hit:
  assumes "map_of (store c) k = Some (v, e)" and "\<not> is_expired now e"
  shows "LRUCache_get c now k =
           Inr (Some v, c\<lparr>store := od_remove (store c) k @ [(k, (v, e))], hits := hits c + 1\<rparr>)"
  using assms by (simp add: get_unfold)

lemma set_existing:
  assumes "od_contains (store c) k" and "within_capacity c"
  shows "LRUCache_set c now k v =
           Inr (c\<lparr>store := od_remove (store c) k @ [(k, (v, expiration c now))]\<rparr>)"
proof -
  let ?c' = "c\<lparr>store := od_remove (store c) k @ [(k, (v, expiration c now))]\<rparr>"
  have len: "length (store ?c') \<le> length (store c)"
    using length_od_remove_less[OF assms(1)] by simp
  then have "excess ?c' = 0" and "0 \<le> max_size ?c'"
    using assms(2) by (simp_all add: excess_def within_capacity_def)
  then have "evict_if_needed ?c' = Inr ?c'"
    by (simp add: evict_nonneg)
  then show ?thesis by (simp add: set_unfold)
qed

subsection \<open>Evaluating the engine on concrete calls\<close>

lemmas engine_defs =
  LRUCache_init_def LRUCache_set_def LRUCache_get_def LRUCache_clear_def LRUCache_delete_def
  LRUCache_contains_def LRUCache_resize_def LRUCache_stats_def
  od_contains_def od_setitem_def od_getitem_def od_move_to_end_def od_remove_def
  od_delitem_def od_popitem_first_def is_expired_def evict_if_needed.simps

section \<open>Properties of key derivation\<close>

subsection \<open>The order of keys\<close>

lemma key_lt_cases:
  "key_lt a b = (if comparable a b then Inr (kless a b) else Inl TypeError)"
  by (cases a; cases b) (simp_all add: comparable_def kless_def)

lemma comparable_refl [simp]: "comparable a a"
  by (cases a) (simp_all add: comparable_def)

lemma comparable_sym: "comparable a b \<Longrightarrow> comparable b a"
  by (cases a; cases b) (simp_all add: comparable_def)

lemma comparable_trans: "comparable a b \<Longrightarrow> comparable b c \<Longrightarrow> comparable a c"
  by (cases a; cases b; cases c) (simp_all add: comparable_def)

lemma kless_irrefl [simp]: "\<not> kless a a"
  by (cases a) (simp_all add: kless_def)

lemma kless_trans: "kless a b \<Longrightarrow> kless b c \<Longrightarrow> kless a c"
  by (cases a; cases b; cases c) (auto simp: kless_def)

lemma kless_asym: "kless a b \<Longrightarrow> \<not> kless b a"
  by (cases a; cases b) (auto simp: kless_def)

lemma kless_total: "comparable a b \<Longrightarrow> a \<noteq> b \<Longrightarrow> kless a b \<or> kless b a"
  by (cases a; cases b) (auto simp: kless_def comparable_def)

lemma kless_comparable: "kless a b \<Longrightarrow> comparable a b"
  by (cases a; cases b) (auto simp: kless_def comparable_def)

subsection \<open>\<open>sorted\<close>\<close>

lemma insert_sorted_ok:
  assumes "\<forall>y\<in>set ys. comparable (fst x) (fst y)"
  shows "\<exists>zs. insert_sorted x ys = Inr zs \<and> mset zs = add_mset x (mset ys)"
  using assms
proof (induction ys)
  case Nil
  then show ?case by simp
next
  case (Cons y ys)
  then obtain zs where zs: "insert_sorted x ys = Inr zs" "mset zs = add_mset x (mset ys)"
    by auto
  from Cons.prems have "key_lt (fst x) (fst y) = Inr (kless (fst x) (fst y))"
    by (simp add: key_lt_cases)
  with zs show ?case by (cases "kless (fst x) (fst y)") simp_all
qed

lemma insert_sorted_ascending:
  assumes "\<forall>y\<in>set ys. comparable (fst x) (fst y)" and "ascending ys"
    and "insert_sorted x ys = Inr zs"
  shows "ascending zs"
  using assms
proof (induction ys arbitrary: zs)
  case Nil
  then show ?case by (auto simp: ascending_def)
next
  case (Cons y ys)
  have kl: "key_lt (fst x) (fst y) = Inr (kless (fst x) (fst y))"
    using Cons.prems(1) by (simp add: key_lt_cases)
  have asc: "ascending ys" and ylow: "\<forall>z\<in>set ys. \<not> kless (fst z) (fst y)"
    using Cons.prems(2) by (simp_all add: ascending_def)
  show ?case
  proof (cases "kless (fst x) (fst y)")
    case True
    then have zs: "zs = x # y # ys" using Cons.prems(3) kl by simp
    have "\<not> kless (fst z) (fst x)" if "z \<in> set (y # ys)" for z
    proof (cases "z = y")
      case True
      then show ?thesis using \<open>kless (fst x) (fst y)\<close> kless_asym by blast
    next
      case False
      with that have "z \<in> set ys" by simp
      with ylow have "\<not> kless (fst z) (fst y)" by blast
      then show ?thesis using \<open>kless (fst x) (fst y)\<close> kless_trans by blast
    qed
    then show ?thesis using Cons.prems(2) by (simp add: zs ascending_def)
  next
    case False
    from insert_sorted_ok[of ys x] Cons.prems(1)
    obtain zs' where zs': "insert_sorted x ys = Inr zs'" "mset zs' = add_mset x (mset ys)"
      by auto
    then have zs: "zs = y # zs'" using Cons.prems(3) kl False by simp
    have "ascending zs'" using Cons.IH[OF _ asc zs'(1)] Cons.prems(1) by simp
    moreover have "set zs' = insert x (set ys)"
      using zs'(2) by (metis mset_eq_setD set_mset_add_mset_insert set_mset_mset)
    ultimately show ?thesis using False ylow by (simp add: zs ascending_def)
  qed
qed

lemma insert_sorted_err:
  assumes "ys \<noteq> []" and "\<forall>y\<in>set ys. \<not> comparable (fst x) (fst y)"
  shows "insert_sorted x ys = Inl TypeError"
  using assms by (cases ys) (simp_all add: key_lt_cases)

lemma sorted_from_ok:
  assumes "homogeneous (acc @ xs)"
  shows "\<exists>zs. sorted_from acc xs = Inr zs \<and> mset zs = mset acc + mset xs \<and>
          (ascending acc \<longrightarrow> ascending zs)"
  using assms
proof (induction xs arbitrary: acc)
  case Nil
  then show ?case by simp
next
  case (Cons x xs)
  have cx: "\<forall>y\<in>set acc. comparable (fst x) (fst y)"
    using Cons.prems by (simp add: homogeneous_def)
  from insert_sorted_ok[OF cx]
  obtain acc' where acc': "insert_sorted x acc = Inr acc'" "mset acc' = add_mset x (mset acc)"
    by blast
  have "set acc' = insert x (set acc)"
    using acc'(2) by (metis mset_eq_setD set_mset_add_mset_insert set_mset_mset)
  then have "homogeneous (acc' @ xs)"
    using Cons.prems by (auto simp: homogeneous_def)
  from Cons.IH[OF this]
  obtain zs where zs: "sorted_from acc' xs = Inr zs" "mset zs = mset acc' + mset xs"
    "ascending acc' \<longrightarrow> ascending zs"
    by blast
  have "ascending acc \<longrightarrow> ascending acc'"
    using insert_sorted_ascending[OF cx _ acc'(1)] by blast
  with zs acc' show ?case by simp
qed

lemma sorted_from_err:
  assumes "homogeneous acc" and "\<not> homogeneous (acc @ xs)"
  shows "sorted_from acc xs = Inl TypeError"
  using assms
proof (induction xs arbitrary: acc)
  case Nil
  then show ?case by simp
next
  case (Cons x xs)
  show ?case
  proof (cases "\<forall>y\<in>set acc. comparable (fst x) (fst y)")
    case True
    from insert_sorted_ok[OF True]
    obtain acc' where acc': "insert_sorted x acc = Inr acc'" "mset acc' = add_mset x (mset acc)"
      by blast
    have s: "set acc' = insert x (set acc)"
      using acc'(2) by (metis mset_eq_setD set_mset_add_mset_insert set_mset_mset)
    have "homogeneous acc'"
      using True Cons.prems(1) comparable_sym by (auto simp: homogeneous_def s)
    moreover have "\<not> homogeneous (acc' @ xs)"
      using Cons.prems(2) by (simp add: homogeneous_def s)
    ultimately have "sorted_from acc' xs = Inl TypeError" by (rule Cons.IH)
    with acc' show ?thesis by simp
  next
    case False
    then obtain y where y: "y \<in> set acc" "\<not> comparable (fst x) (fst y)" by blast
    have "\<not> comparable (fst x) (fst y')" if "y' \<in> set acc" for y'
    proof
      assume "comparable (fst x) (fst y')"
      moreover have "comparable (fst y') (fst y)"
        using Cons.prems(1) that y(1) by (simp add: homogeneous_def)
      ultimately show False using y(2) comparable_trans by blast
    qed
    moreover have "acc \<noteq> []" using y(1) by auto
    ultimately have "insert_sorted x acc = Inl TypeError"
      using insert_sorted_err by blast
    then show ?thesis by simp
  qed
qed

lemma py_sorted_homogeneous:
  assumes "homogeneous xs"
  shows "\<exists>zs. py_sorted xs = Inr zs \<and> mset zs = mset xs \<and> ascending zs"
  using sorted_from_ok[of "[]" xs] assms by (auto simp: py_sorted_def ascending_def)

lemma py_sorted_mixed:
  assumes "\<not> homogeneous xs"
  shows "py_sorted xs = Inl TypeError"
  using sorted_from_err[of "[]" xs] assms by (simp add: py_sorted_def homogeneous_def)

lemma ascending_unique:
  assumes "ascending xs" and "ascending ys" and "mset xs = mset ys"
    and "distinct (map fst xs)" and "homogeneous xs"
  shows "xs = ys"
  using assms
proof (induction xs arbitrary: ys)
  case Nil
  then show ?case by simp
next
  case (Cons x xs)
  then obtain y ys' where ys: "ys = y # ys'" by (cases ys) auto
  have sets: "set (x # xs) = set (y # ys')"
    using Cons.prems(3) ys mset_eq_setD by blast
  have xy: "x = y"
  proof (rule ccontr)
    assume ne: "x \<noteq> y"
    with sets have xin: "x \<in> set ys'" and yin: "y \<in> set xs" by auto
    have "\<not> kless (fst x) (fst y)"
      using Cons.prems(2) xin by (simp add: ys ascending_def)
    moreover have "\<not> kless (fst y) (fst x)"
      using Cons.prems(1) yin by (simp add: ascending_def)
    moreover have "fst x \<noteq> fst y"
      using Cons.prems(4) yin by auto
    moreover have "comparable (fst x) (fst y)"
      using Cons.prems(5) yin by (simp add: homogeneous_def)
    ultimately show False using kless_total by blast
  qed
  have "xs = ys'"
  proof (rule Cons.IH)
    show "ascending xs" using Cons.prems(1) by (simp add: ascending_def)
    show "ascending ys'" using Cons.prems(2) by (simp add: ys ascending_def)
    show "mset xs = mset ys'" using Cons.prems(3) by (simp add: ys xy)
    show "distinct (map fst xs)" using Cons.prems(4) by simp
    show "homogeneous xs" using Cons.prems(5) by (simp add: homogeneous_def)
  qed
  with xy ys show ?case by simp
qed

lemma py_sorted_permutation:
  assumes "distinct (map fst xs)" and "mset xs = mset ys"
  shows "py_sorted xs = py_sorted ys"
proof (cases "homogeneous xs")
  case True
  have sets: "set xs = set ys" using assms(2) mset_eq_setD by blast
  then have hy: "homogeneous ys" using True by (simp add: homogeneous_def)
  from py_sorted_homogeneous[OF True]
  obtain zs where zs: "py_sorted xs = Inr zs" "mset zs = mset xs" "ascending zs" by blast
  from py_sorted_homogeneous[OF hy]
  obtain zs' where zs': "py_sorted ys = Inr zs'" "mset zs' = mset ys" "ascending zs'" by blast
  have "mset (map fst zs) = mset (map fst xs)" using zs(2) by simp
  then have "distinct (map fst zs)"
    using assms(1) by (metis mset_eq_imp_distinct_iff)
  moreover have "homogeneous zs"
    using True zs(2) mset_eq_setD[OF zs(2)] by (simp add: homogeneous_def)
  ultimately have "zs = zs'"
    using ascending_unique[OF zs(3) zs'(3)] zs(2) zs'(2) assms(2) by simp
  with zs zs' show ?thesis by simp
next
  case False
  have "set xs = set ys" using assms(2) mset_eq_setD by blast
  then have "\<not> homogeneous ys" using False by (simp add: homogeneous_def)
  with False show ?thesis by (simp add: py_sorted_mixed)
qed

subsection \<open>\<open>make_hashable\<close>\<close>

lemma sequence_ok:
  "\<forall>r\<in>set rs. \<not> isl r \<Longrightarrow> sequence rs = Inr (map projr rs)"
  by (induction rs) (auto split: sum.splits)

lemma sequence_err:
  "\<exists>r\<in>set rs. isl r \<Longrightarrow> \<exists>e. sequence rs = Inl e \<and> Inl e \<in> set rs"
proof (induction rs)
  case Nil
  then show ?case by simp
next
  case (Cons r rs)
  show ?case
  proof (cases r)
    case (Inl e)
    then show ?thesis by simp
  next
    case (Inr x)
    with Cons.prems have "\<exists>r\<in>set rs. isl r" by auto
    from Cons.IH[OF this] Inr show ?thesis by (auto split: sum.splits)
  qed
qed

lemma insert_sorted_error: "insert_sorted x ys = Inl e \<Longrightarrow> e = TypeError"
proof (induction ys)
  case Nil
  then show ?case by simp
next
  case (Cons y ys)
  then show ?case
    by (cases "comparable (fst x) (fst y)"; cases "kless (fst x) (fst y)")
       (auto simp: key_lt_cases split: sum.splits)
qed

lemma sorted_from_error: "sorted_from acc xs = Inl e \<Longrightarrow> e = TypeError"
proof (induction xs arbitrary: acc)
  case Nil
  then show ?case by simp
next
  case (Cons x xs)
  then show ?case
    by (cases "insert_sorted x acc") (auto dest: insert_sorted_error)
qed

lemma py_sorted_error: "py_sorted xs = Inl e \<Longrightarrow> e = TypeError"
  unfolding py_sorted_def by (rule sorted_from_error)

lemma sequence_error_member: "sequence rs = Inl e \<Longrightarrow> Inl e \<in> set rs"
  by (induction rs) (auto split: sum.splits)

lemma item_result_simps [simp]:
  "item_result (k, Inl e) = Inl e" "item_result (k, Inr v) = Inr (k, v)"
  by (simp_all add: item_result_def)

lemma make_hashable_error: "make_hashable x = Inl e \<Longrightarrow> e = TypeError"
proof (induction x arbitrary: e)
  case (PTuple xs)
  from PTuple.prems have "sequence (map make_hashable xs) = Inl e"
    by (cases "sequence (map make_hashable xs)") simp_all
  then have "Inl e \<in> set (map make_hashable xs)" by (rule sequence_error_member)
  then show ?case using PTuple.IH by auto
next
  case (PList xs)
  from PList.prems have "sequence (map make_hashable xs) = Inl e"
    by (cases "sequence (map make_hashable xs)") simp_all
  then have "Inl e \<in> set (map make_hashable xs)" by (rule sequence_error_member)
  then show ?case using PList.IH by auto
next
  case (PDict d)
  show ?case
  proof (cases "sequence (map item_result (map (map_prod id make_hashable) d))")
    case (Inl e')
    with PDict.prems have "e' = e" by simp
    with Inl have "Inl e \<in> set (map item_result (map (map_prod id make_hashable) d))"
      using sequence_error_member by blast
    then obtain k v where kv: "(k, v) \<in> set d" "item_result (k, make_hashable v) = Inl e"
      by auto
    then have "make_hashable v = Inl e"
      by (cases "make_hashable v") simp_all
    with kv(1) PDict.IH show ?thesis by fastforce
  next
    case (Inr items)
    with PDict.prems have "py_sorted items = Inl e"
      by (cases "py_sorted items") simp_all
    then show ?thesis by (rule py_sorted_error)
  qed
next
  case (PSet s)
  then show ?case by (simp split: if_splits)
qed simp_all

lemma tuple_unhashable:
  assumes "x \<in> set xs" and "isl (make_hashable x)"
  shows "make_hashable (PTuple xs) = Inl TypeError"
proof -
  have "\<exists>r\<in>set (map make_hashable xs). isl r" using assms by auto
  from sequence_err[OF this]
  obtain e where e: "sequence (map make_hashable xs) = Inl e" by blast
  then have "make_hashable (PTuple xs) = Inl e" by simp
  then show ?thesis using make_hashable_error by blast
qed

lemma canon_items_cases:
  "sequence (map item_result (map (map_prod id make_hashable) d)) =
     (if \<exists>p\<in>set d. isl (make_hashable (snd p)) then Inl TypeError
      else Inr (map (map_prod id (projr \<circ> make_hashable)) d))"
proof (cases "\<exists>p\<in>set d. isl (make_hashable (snd p))")
  case True
  then obtain k v where kv: "(k, v) \<in> set d" "isl (make_hashable v)" by auto
  then obtain e0 where "make_hashable v = Inl e0" by (cases "make_hashable v") auto
  with kv(1) have "Inl e0 \<in> set (map item_result (map (map_prod id make_hashable) d))"
    by (force simp: image_iff)
  then have "\<exists>r\<in>set (map item_result (map (map_prod id make_hashable) d)). isl r"
    by (metis sum.disc(1))
  from sequence_err[OF this]
  obtain e where e: "sequence (map item_result (map (map_prod id make_hashable) d)) = Inl e"
    "Inl e \<in> set (map item_result (map (map_prod id make_hashable) d))" by blast
  from e(2) obtain k' v' where "item_result (k', make_hashable v') = Inl e" by auto
  then have "make_hashable v' = Inl e" by (cases "make_hashable v'") simp_all
  then have "e = TypeError" by (rule make_hashable_error)
  with e(1) True show ?thesis by simp
next
  case False
  then have ok: "\<forall>p\<in>set d. \<not> isl (make_hashable (snd p))" by blast
  have "\<forall>r\<in>set (map item_result (map (map_prod id make_hashable) d)). \<not> isl r"
  proof
    fix r assume "r \<in> set (map item_result (map (map_prod id make_hashable) d))"
    then obtain k v where kv: "(k, v) \<in> set d" "r = item_result (k, make_hashable v)" by auto
    with ok show "\<not> isl r" by (cases "make_hashable v") auto
  qed
  then have "sequence (map item_result (map (map_prod id make_hashable) d)) =
      Inr (map projr (map item_result (map (map_prod id make_hashable) d)))"
    by (rule sequence_ok)
  moreover have "map projr (map item_result (map (map_prod id make_hashable) d)) =
      map (map_prod id (projr \<circ> make_hashable)) d"
  proof -
    have "projr (item_result (map_prod id make_hashable p)) = map_prod id (projr \<circ> make_hashable) p"
      if "p \<in> set d" for p
      using ok that by (cases p; cases "make_hashable (snd p)") auto
    then show ?thesis by simp
  qed
  ultimately show ?thesis using False by simp
qed

lemma make_hashable_dict:
  "make_hashable (PDict d) =
     (if \<exists>p\<in>set d. isl (make_hashable (snd p)) then Inl TypeError
      else map_sum id (\<lambda>s. PTuple (map item_tuple s))
             (py_sorted (map (map_prod id (projr \<circ> make_hashable)) d)))"
  unfolding make_hashable.simps canon_items_cases by simp

lemma dict_value_unhashable:
  assumes "(k, v) \<in> set d" and "isl (make_hashable v)"
  shows "make_hashable (PDict d) = Inl TypeError"
proof -
  have "\<exists>p\<in>set d. isl (make_hashable (snd p))" using assms by force
  then show ?thesis by (simp only: make_hashable_dict if_True)
qed

lemma dict_permutation:
  assumes "distinct (map fst d1)" and "mset d1 = mset d2"
  shows "make_hashable (PDict d1) = make_hashable (PDict d2)"
proof -
  have sets: "set d1 = set d2" using assms(2) mset_eq_setD by blast
  show ?thesis
  proof (cases "\<exists>p\<in>set d1. isl (make_hashable (snd p))")
    case True
    then show ?thesis using sets by (simp add: make_hashable_dict del: make_hashable.simps)
  next
    case False
    let ?g = "map_prod id (projr \<circ> make_hashable) :: pykey \<times> pyval \<Rightarrow> pykey \<times> pyval"
    have "map fst (map ?g d1) = map fst d1" by simp
    then have "distinct (map fst (map ?g d1))" using assms(1) by simp
    moreover have "mset (map ?g d1) = mset (map ?g d2)" using assms(2) by simp
    ultimately have "py_sorted (map ?g d1) = py_sorted (map ?g d2)"
      by (rule py_sorted_permutation)
    then show ?thesis using False sets by (simp add: make_hashable_dict del: make_hashable.simps)
  qed
qed

lemma ascending_strict:
  assumes "ascending zs" and "distinct (map fst zs)" and "homogeneous zs"
  shows "sorted_wrt (\<lambda>a b. key_lt (fst a) (fst b) = Inr True) zs"
  using assms
proof (induction zs)
  case Nil
  then show ?case by simp
next
  case (Cons z zs)
  have "key_lt (fst z) (fst b) = Inr True" if "b \<in> set zs" for b
  proof -
    have "\<not> kless (fst b) (fst z)" using Cons.prems(1) that by (simp add: ascending_def)
    moreover have "fst z \<noteq> fst b" using Cons.prems(2) that by auto
    moreover have "comparable (fst z) (fst b)" using Cons.prems(3) that by (simp add: homogeneous_def)
    ultimately have "kless (fst z) (fst b)" using kless_total by blast
    then show ?thesis by (simp add: kless_def)
  qed
  moreover have "sorted_wrt (\<lambda>a b. key_lt (fst a) (fst b) = Inr True) zs"
    using Cons by (simp add: ascending_def homogeneous_def)
  ultimately show ?case by simp
qed

lemma dict_sorted:
  assumes "distinct (map fst d)" and "make_hashable (PDict d) = Inr r"
  shows "\<exists>items. r = PTuple (map item_tuple items) \<and>
           sorted_wrt (\<lambda>a b. key_lt (fst a) (fst b) = Inr True) items \<and>
           mset items = mset (map (map_prod id (projr \<circ> make_hashable)) d)"
proof -
  let ?g = "map_prod id (projr \<circ> make_hashable) :: pykey \<times> pyval \<Rightarrow> pykey \<times> pyval"
  have noerr: "\<not> (\<exists>p\<in>set d. isl (make_hashable (snd p)))"
  proof
    assume "\<exists>p\<in>set d. isl (make_hashable (snd p))"
    then have "make_hashable (PDict d) = Inl TypeError"
      by (simp only: make_hashable_dict if_True)
    with assms(2) show False by simp
  qed
  then have r: "map_sum id (\<lambda>s. PTuple (map item_tuple s)) (py_sorted (map ?g d)) = Inr r"
    using assms(2) by (simp only: make_hashable_dict if_False)
  then have hom: "homogeneous (map ?g d)"
    using py_sorted_mixed[of "map ?g d"] by (cases "homogeneous (map ?g d)") auto
  from py_sorted_homogeneous[OF hom]
  obtain zs where zs: "py_sorted (map ?g d) = Inr zs" "mset zs = mset (map ?g d)" "ascending zs"
    by blast
  have fg: "map fst (map ?g d) = map fst d" by simp
  from zs(2) have "image_mset fst (mset zs) = image_mset fst (mset (map ?g d))"
    by (rule arg_cong)
  then have "mset (map fst zs) = mset (map fst (map ?g d))" by (simp only: mset_map)
  then have "mset (map fst zs) = mset (map fst d)" by (simp only: fg)
  then have "distinct (map fst zs)"
    using assms(1) by (metis mset_eq_imp_distinct_iff)
  have "homogeneous zs"
    using hom mset_eq_setD[OF zs(2)] by (simp add: homogeneous_def)
  then have "sorted_wrt (\<lambda>a b. key_lt (fst a) (fst b) = Inr True) zs"
    using ascending_strict[OF zs(3) \<open>distinct (map fst zs)\<close>] by blast
  moreover have "r = PTuple (map item_tuple zs)" using r zs(1) by simp
  ultimately show ?thesis using zs(2) by blast
qed

lemma kwargs_permutation:
  assumes "distinct (map fst kw1)" and "mset kw1 = mset kw2"
  shows "make_hashable (kwargs_dict kw1) = make_hashable (kwargs_dict kw2)"
proof -
  let ?h = "\<lambda>kv :: string \<times> pyval. (KStr (fst kv), snd kv)"
  have "map fst (map ?h kw1) = map KStr (map fst kw1)" by simp
  then have "distinct (map fst (map ?h kw1))"
    using assms(1) by (simp add: distinct_map inj_on_def)
  moreover have "mset (map ?h kw1) = mset (map ?h kw2)" using assms(2) by simp
  ultimately show ?thesis unfolding kwargs_dict_def by (rule dict_permutation)
qed

lemma make_key_permutation:
  assumes "distinct (map fst kw1)" and "mset kw1 = mset kw2"
  shows "make_key args kw1 = make_key args kw2"
  unfolding make_key_def kwargs_permutation[OF assms] by (rule refl)

lemma make_key_unhashable:
  assumes "PUnhashable n \<in> set args \<or> PUnhashable n \<in> snd ` set kwargs"
  shows "make_key args kwargs = Inl TypeError"
proof (cases "make_hashable (PTuple args)")
  case (Inl e)
  then have "e = TypeError" by (rule make_hashable_error)
  with Inl show ?thesis by (simp add: make_key_def)
next
  case (Inr a)
  have "PUnhashable n \<notin> set args"
  proof
    assume "PUnhashable n \<in> set args"
    then have "make_hashable (PTuple args) = Inl TypeError"
      by (rule tuple_unhashable) simp
    with Inr show False by simp
  qed
  with assms obtain k where "(k, PUnhashable n) \<in> set kwargs" by auto
  then have "(KStr k, PUnhashable n) \<in> set (map (\<lambda>kv. (KStr (fst kv), snd kv)) kwargs)"
    by force
  then have "make_hashable (kwargs_dict kwargs) = Inl TypeError"
    unfolding kwargs_dict_def by (rule dict_value_unhashable) simp
  with Inr show ?thesis by (simp add: make_key_def)
qed

section \<open>Properties of the wrapper\<close>

lemma wrapper_key_error:
  "make_key args kwargs = Inl e \<Longrightarrow> wrapper func st tg ts args kwargs = Inl (e, st)"
  by (simp add: wrapper_def)

lemma wrapper_hit:
  assumes "make_key args kwargs = Inr key"
    and "map_of (store (cache st)) key = Some (v, e)" and "\<not> is_expired tg e" and "v \<noteq> PNone"
  shows "wrapper func st tg ts args kwargs =
           Inr (v, st\<lparr>cache := (cache st)\<lparr>store := od_remove (store (cache st)) key @ [(key, (v, e))],
                                       hits := hits (cache st) + 1\<rparr>\<rparr>)"
  using assms by (simp add: wrapper_def get_hit)


lemmas key_defs =
  make_key_def kwargs_dict_def py_sorted_def item_result_def item_tuple_def key_value_def

lemma two_calls_reordered:
  "wrapper add_ab (cache_decorator None 10 ()) t1 t2 [] [(''a'', PInt 1), (''b'', PInt 2)] =
     Inr (PInt 3,
          \<lparr>cache = \<lparr>max_size = 10, ttl = None,
               store = [(PTuple [PTuple [],
                          PTuple [PTuple [PStr ''a'', PInt 1], PTuple [PStr ''b'', PInt 2]]],
                         (PInt 3, None))],
               hits = 0, misses = 1, evictions = 0\<rparr>,
           world = (), invocations = [([], [(''a'', PInt 1), (''b'', PInt 2)])]\<rparr>) \<and>
   wrapper add_ab
      (state_of (wrapper add_ab (cache_decorator None 10 ()) t1 t2 []
         [(''a'', PInt 1), (''b'', PInt 2)]))
      t3 t4 [] [(''b'', PInt 2), (''a'', PInt 1)] =
     Inr (PInt 3,
          \<lparr>cache = \<lparr>max_size = 10, ttl = None,
               store = [(PTuple [PTuple [],
                          PTuple [PTuple [PStr ''a'', PInt 1], PTuple [PStr ''b'', PInt 2]]],
                         (PInt 3, None))],
               hits = 1, misses = 1, evictions = 0\<rparr>,
           world = (), invocations = [([], [(''a'', PInt 1), (''b'', PInt 2)])]\<rparr>)"
  by (simp add: wrapper_def key_defs engine_defs cache_decorator_def add_ab_def state_of_def Let_def)








section \<open>The claims\<close>

text \<open>
  C1. An engine is constructed with a positive \<open>max_size\<close> and then used through any
  sequence of calls (\<open>set\<close>, \<open>get\<close>, membership test, \<open>delete\<close>, \<open>clear\<close>, and \<open>resize\<close> with
  a positive new capacity). No call raises, and after the last one the number of stored
  entries is at most \<open>max_size\<close>. The sequence is arbitrary, so the bound holds after
  every call of it.
\<close>

theorem capacity_invariant:
  assumes "0 < m" and "positive_resizes ops"
  shows "\<exists>c. run (LRUCache_init m t) ops = Inr c \<and> int (length (store c)) \<le> max_size c"
proof -
  have "within_capacity (LRUCache_init m t :: ('a, 'b) LRUCache)"
    using assms(1) by (simp add: within_capacity_def LRUCache_init_def)
  moreover have "0 < max_size (LRUCache_init m t :: ('a, 'b) LRUCache)"
    using assms(1) by (simp add: LRUCache_init_def)
  ultimately obtain c
    where "run (LRUCache_init m t :: ('a, 'b) LRUCache) ops = Inr c" "within_capacity c"
    using run_within[OF _ _ assms(2)] by blast
  then show ?thesis
    unfolding within_capacity_def by blast
qed

theorem capacity_invariant_witness:
  "(0::int) < 2 \<and>
   positive_resizes
     [Set 0 ''a'' (1::int), Set 1 ''b'' 2, Set 2 ''c'' 3, Resize 1, Delete ''c'', Clear] \<and>
   (\<exists>c. run (LRUCache_init 2 None)
          [Set 0 ''a'' (1::int), Set 1 ''b'' 2, Set 2 ''c'' 3, Resize 1, Delete ''c'', Clear]
        = Inr c \<and> int (length (store c)) \<le> max_size c)"
  using capacity_invariant[of 2
      "[Set 0 ''a'' (1::int), Set 1 ''b'' 2, Set 2 ''c'' 3, Resize 1, Delete ''c'', Clear]" None]
  by simp

text \<open>
  C2. A \<open>get\<close> that finds a live entry moves it to the most-recently-used end (the end
  of the list) and counts a hit. A \<open>set\<close> on a key that is present, in an engine within
  its capacity, puts the key with its new value at that end and evicts nothing. The
  eviction loop of an engine with a capacity of 0 or more removes exactly the entries
  above the capacity, from the least-recently-used end (the front of the list), counting
  each. With \<open>max_size = 2\<close>, \<open>set(a, 1); set(b, 2); get(a); set(c, 3)\<close> leaves a and c,
  in this order, and has evicted b.
\<close>

theorem recency_order:
  "(map_of (store c) k = Some (v, e) \<and> \<not> is_expired now e \<longrightarrow>
      LRUCache_get c now k =
        Inr (Some v, c\<lparr>store := od_remove (store c) k @ [(k, (v, e))], hits := hits c + 1\<rparr>)) \<and>
   (od_contains (store c) k \<and> within_capacity c \<longrightarrow>
      LRUCache_set c now k w =
        Inr (c\<lparr>store := od_remove (store c) k @ [(k, (w, expiration c now))]\<rparr>)) \<and>
   (0 \<le> max_size c \<longrightarrow>
      evict_if_needed c =
        Inr (c\<lparr>store := drop (excess c) (store c),
               evictions := evictions c + int (excess c)\<rparr>)) \<and>
   run (LRUCache_init 2 None)
       [Set t1 ''a'' (1::int), Set t2 ''b'' 2, Get t3 ''a'', Set t4 ''c'' 3] =
     Inr \<lparr>max_size = 2, ttl = None, store = [(''a'', (1, None)), (''c'', (3, None))],
          hits = 1, misses = 0, evictions = 1\<rparr>"
proof -
  have "run (LRUCache_init 2 None)
       [Set t1 ''a'' (1::int), Set t2 ''b'' 2, Get t3 ''a'', Set t4 ''c'' 3] =
     Inr \<lparr>max_size = 2, ttl = None, store = [(''a'', (1, None)), (''c'', (3, None))],
          hits = 1, misses = 0, evictions = 1\<rparr>"
    by (simp add: engine_defs)
  then show ?thesis
    using get_hit[of c k v e now] set_existing[of c k now w] evict_nonneg[of c]
    by blast
qed

theorem recency_order_witness:
  "LRUCache_get (LRUCache_init 2 None\<lparr>store := [(''a'', (1::int, None)), (''b'', (2, None))]\<rparr>)
       7 ''a'' =
     Inr (Some 1, LRUCache_init 2 None
            \<lparr>store := [(''b'', (2, None)), (''a'', (1, None))], hits := 1\<rparr>) \<and>
   LRUCache_set (LRUCache_init 2 None\<lparr>store := [(''a'', (1::int, None)), (''b'', (2, None))]\<rparr>)
       7 ''a'' 5 =
     Inr (LRUCache_init 2 None\<lparr>store := [(''b'', (2, None)), (''a'', (5, None))]\<rparr>) \<and>
   evict_if_needed
       (LRUCache_init 1 None\<lparr>store := [(''a'', (1::int, None)), (''b'', (2, None))]\<rparr>) =
     Inr (LRUCache_init 1 None\<lparr>store := [(''b'', (2, None))], evictions := 1\<rparr>)"
  using recency_order
    [where c = "LRUCache_init 2 None\<lparr>store := [(''a'', (1::int, None)), (''b'', (2, None))]\<rparr>"
       and k = "''a''" and v = 1 and e = None and now = 7 and w = 5]
    recency_order
    [where c = "LRUCache_init 1 None\<lparr>store := [(''a'', (1::int, None)), (''b'', (2, None))]\<rparr>"
       and k = "''a''" and v = 1 and e = None and now = 7 and w = 5]
  by (simp add: LRUCache_init_def od_remove_def od_contains_def within_capacity_def
      is_expired_def expiration_def excess_def)

text \<open>
  C3. When the entry stored under a key has an expiration time strictly before the time
  \<open>get\<close> reads, \<open>get\<close> deletes the entry, returns \<open>None\<close>, adds one to \<open>misses\<close> and
  leaves \<open>hits\<close> and \<open>evictions\<close> as they were. No call of \<open>get\<close> or of the membership
  test changes \<open>evictions\<close>, whatever it finds.
\<close>

theorem ttl_expiry_is_a_miss:
  assumes "map_of (store c) k = Some (v, Some t)" and "t < now"
  shows "LRUCache_get c now k =
           Inr (None, c\<lparr>store := od_remove (store c) k, misses := misses c + 1\<rparr>) \<and>
         \<not> od_contains (od_remove (store c) k) k \<and>
         evictions (state_of (LRUCache_get c now k)) = evictions c \<and>
         hits (state_of (LRUCache_get c now k)) = hits c \<and>
         misses (state_of (LRUCache_get c now k)) = misses c + 1 \<and>
         evictions (state_of (LRUCache_get c' now' k')) = evictions c' \<and>
         evictions (state_of (LRUCache_contains c' now' k')) = evictions c'"
proof -
  have g: "LRUCache_get c now k =
           Inr (None, c\<lparr>store := od_remove (store c) k, misses := misses c + 1\<rparr>)"
    using assms by (simp add: get_unfold is_expired_def)
  show ?thesis
    by (simp add: g state_of_def od_remove_absent get_evictions[unfolded state_of_def]
        contains_evictions[unfolded state_of_def])
qed

theorem ttl_expiry_is_a_miss_witness:
  "map_of [(''x'', (100::int, Some (1::real)))] ''x'' = Some (100, Some 1) \<and> (1::real) < 5 / 2 \<and>
   LRUCache_get (LRUCache_init 2 (Some 1)\<lparr>store := [(''x'', (100::int, Some 1))]\<rparr>) (5 / 2) ''x'' =
     Inr (None, LRUCache_init 2 (Some 1)\<lparr>misses := 1\<rparr>)"
  using ttl_expiry_is_a_miss
    [where c = "LRUCache_init 2 (Some 1)\<lparr>store := [(''x'', (100::int, Some 1))]\<rparr>"
       and k = "''x''" and v = 100 and t = 1 and now = "5 / 2"
       and c' = "LRUCache_init 2 (Some 1) :: (string, int) LRUCache" and k' = "''x''" and now' = 0]
  by (simp add: LRUCache_init_def od_remove_def)

text \<open>
  C4 says that a call whose key is present and live in the engine returns the cached
  value without invoking the underlying function. The code does not do so when the cached
  value is \<open>None\<close>. The wrapped function returns \<open>None\<close>; the first call stores \<open>None\<close>
  under the key; at the second call the key is present and live, and the engine counts a
  hit, yet the wrapper invokes the function again and calls \<open>set\<close> again: two invocations
  for two calls.
\<close>

theorem cached_none_is_not_served:
  "wrapper returns_none (cache_decorator None 10 ()) t1 t2 [PInt 1] [] =
     Inr (PNone,
          \<lparr>cache = \<lparr>max_size = 10, ttl = None,
               store = [(PTuple [PTuple [PInt 1], PTuple []], (PNone, None))],
               hits = 0, misses = 1, evictions = 0\<rparr>,
           world = (), invocations = [([PInt 1], [])]\<rparr>) \<and>
   wrapper returns_none
      (state_of (wrapper returns_none (cache_decorator None 10 ()) t1 t2 [PInt 1] []))
      t3 t4 [PInt 1] [] =
     Inr (PNone,
          \<lparr>cache = \<lparr>max_size = 10, ttl = None,
               store = [(PTuple [PTuple [PInt 1], PTuple []], (PNone, None))],
               hits = 1, misses = 1, evictions = 0\<rparr>,
           world = (), invocations = [([PInt 1], []), ([PInt 1], [])]\<rparr>)"
  by (simp add: wrapper_def key_defs engine_defs cache_decorator_def returns_none_def
      state_of_def Let_def)

text \<open>
  C5 says that a capacity of 0 or less is refused with \<open>ConfigurationError\<close>. The code
  refuses nothing at a capacity of 0: \<open>resize(0)\<close> on an engine that holds an entry returns
  normally, and an engine built with \<open>max_size = 0\<close> serves \<open>set\<close> and \<open>get\<close>.
\<close>

theorem capacity_not_validated_counterexample:
  "LRUCache_resize (LRUCache_init 2 None\<lparr>store := [(''a'', (1::int, None))]\<rparr>) 0 =
     Inr (LRUCache_init 0 None\<lparr>evictions := 1\<rparr>) \<and>
   LRUCache_set (LRUCache_init 0 None) 5 ''a'' (1::int) =
     Inr (LRUCache_init 0 None\<lparr>evictions := 1\<rparr>) \<and>
   LRUCache_get (LRUCache_init 0 None :: (string, int) LRUCache) 5 ''a'' =
     Inr (None, LRUCache_init 0 None\<lparr>misses := 1\<rparr>)"
  by (simp add: engine_defs)

text \<open>
  C5, as the code has it. The capacity is not validated and there is no
  \<open>ConfigurationError\<close>: the constructor returns an empty engine with the \<open>max_size\<close> it is
  given, whatever the integer; \<open>resize(0)\<close> returns normally after evicting every entry,
  each counted in \<open>evictions\<close>; and an engine built with \<open>max_size = 0\<close> accepts \<open>set\<close>,
  evicting the entry at once.
\<close>

theorem capacity_not_validated:
  "max_size (LRUCache_init m t) = m \<and>
   store (LRUCache_init m t) = [] \<and>
   LRUCache_resize c 0 =
     Inr (c\<lparr>max_size := 0, store := [], evictions := evictions c + int (length (store c))\<rparr>) \<and>
   LRUCache_set (LRUCache_init 0 t) now k v = Inr (LRUCache_init 0 t\<lparr>evictions := 1\<rparr>)"
proof -
  have "LRUCache_resize c 0 =
     Inr (c\<lparr>max_size := 0, store := [], evictions := evictions c + int (length (store c))\<rparr>)"
    using evict_nonneg[of "c\<lparr>max_size := 0\<rparr>"]
    by (simp add: LRUCache_resize_def excess_def)
  moreover have "LRUCache_set (LRUCache_init 0 t) now k v = Inr (LRUCache_init 0 t\<lparr>evictions := 1\<rparr>)"
    by (simp add: engine_defs)
  ultimately show ?thesis
    by (simp add: LRUCache_init_def)
qed

theorem capacity_not_validated_witness:
  "max_size (LRUCache_init (- 3) None :: (string, int) LRUCache) = - 3 \<and>
   LRUCache_resize (LRUCache_init 2 None\<lparr>store := [(''a'', (1::int, None))]\<rparr>) 0 =
     Inr (LRUCache_init 0 None\<lparr>evictions := 1\<rparr>)"
  using capacity_not_validated
    [where m = "- 3" and t = None and now = 0 and k = "''a''" and v = "1::int"
       and c = "LRUCache_init 2 None\<lparr>store := [(''a'', (1::int, None))]\<rparr>"]
  by (simp add: LRUCache_init_def)

text \<open>
  C6. An argument that is no tuple, list, dict or set and is not hashable makes
  \<open>make_hashable\<close> raise \<open>TypeError\<close> (the source's \<open>TypeError("Unhashable type")\<close>, which
  the specification calls \<open>UnsupportedArgumentError\<close>). When such a value is among the
  positional arguments or the values of the keyword arguments, the call of the wrapped
  function raises \<open>TypeError\<close> in key derivation and leaves the state as it was: the engine
  is not touched and the underlying function is not invoked.
\<close>

theorem unhashable_argument_raises:
  assumes "PUnhashable n \<in> set args \<or> PUnhashable n \<in> snd ` set kwargs"
  shows "make_hashable (PUnhashable n) = Inl TypeError \<and>
         make_key args kwargs = Inl TypeError \<and>
         wrapper func st tg ts args kwargs = Inl (TypeError, st)"
  using make_key_unhashable[OF assms] by (simp add: wrapper_key_error)

theorem unhashable_argument_raises_witness:
  "wrapper add_ab (cache_decorator None 10 ()) 0 0 [PInt 1, PUnhashable 7] [] =
     Inl (TypeError, cache_decorator None 10 ()) \<and>
   wrapper add_ab (cache_decorator None 10 ()) 0 0 [] [(''a'', PInt 1), (''b'', PUnhashable 7)] =
     Inl (TypeError, cache_decorator None 10 ())"
  using unhashable_argument_raises
      [where n = 7 and args = "[PInt 1, PUnhashable 7]" and kwargs = "[]" and func = add_ab
         and st = "cache_decorator None 10 ()" and tg = 0 and ts = 0]
    unhashable_argument_raises
      [where n = 7 and args = "[]" and kwargs = "[(''a'', PInt 1), (''b'', PUnhashable 7)]"
         and func = add_ab and st = "cache_decorator None 10 ()" and tg = 0 and ts = 0]
  by simp

text \<open>
  C7. Two lists of keyword arguments that hold the same pairs in different orders (keyword
  names are distinct) derive the same key, so a call with the second finds the entry
  stored under the key of the first: when that entry is live and its value is not
  \<open>None\<close>, the call returns this value from the engine. The same holds of every dictionary:
  its canonical form does not depend on the order of its items, and it is the tuple of
  the canonical (key, value) pairs in ascending order of their keys.
\<close>

theorem keyword_order_independence:
  assumes "distinct (map fst kw1)" and "mset kw1 = mset kw2"
  shows "make_key args kw1 = make_key args kw2 \<and>
    (make_key args kw1 = Inr key \<and> map_of (store (cache st)) key = Some (v, e) \<and>
       \<not> is_expired tg e \<and> v \<noteq> PNone \<longrightarrow>
     wrapper func st tg ts args kw2 =
       Inr (v, st\<lparr>cache := (cache st)\<lparr>store := od_remove (store (cache st)) key @ [(key, (v, e))],
                                   hits := hits (cache st) + 1\<rparr>\<rparr>)) \<and>
    (distinct (map fst d1) \<and> mset d1 = mset d2 \<longrightarrow>
       make_hashable (PDict d1) = make_hashable (PDict d2)) \<and>
    (distinct (map fst d1) \<and> make_hashable (PDict d1) = Inr r \<longrightarrow>
       (\<exists>items. r = PTuple (map item_tuple items) \<and>
          sorted_wrt (\<lambda>a b. key_lt (fst a) (fst b) = Inr True) items \<and>
          mset items = mset (map (map_prod id (projr \<circ> make_hashable)) d1)))"
proof (intro conjI impI)
  show k: "make_key args kw1 = make_key args kw2"
    using assms by (rule make_key_permutation)
  show "wrapper func st tg ts args kw2 =
       Inr (v, st\<lparr>cache := (cache st)\<lparr>store := od_remove (store (cache st)) key @ [(key, (v, e))],
                                   hits := hits (cache st) + 1\<rparr>\<rparr>)"
    if "make_key args kw1 = Inr key \<and> map_of (store (cache st)) key = Some (v, e) \<and>
       \<not> is_expired tg e \<and> v \<noteq> PNone"
    using that k wrapper_hit[of args kw2 key st v e tg func ts] by simp
  show "make_hashable (PDict d1) = make_hashable (PDict d2)"
    if "distinct (map fst d1) \<and> mset d1 = mset d2"
    using that dict_permutation by blast
  show "\<exists>items. r = PTuple (map item_tuple items) \<and>
          sorted_wrt (\<lambda>a b. key_lt (fst a) (fst b) = Inr True) items \<and>
          mset items = mset (map (map_prod id (projr \<circ> make_hashable)) d1)"
    if "distinct (map fst d1) \<and> make_hashable (PDict d1) = Inr r"
    using that dict_sorted by blast
qed

theorem keyword_order_independence_witness:
  "distinct (map fst [(''a'', PInt 1), (''b'', PInt 2)]) \<and>
   mset [(''a'', PInt 1), (''b'', PInt 2)] = mset [(''b'', PInt 2), (''a'', PInt 1)] \<and>
   make_key [] [(''a'', PInt 1), (''b'', PInt 2)] = make_key [] [(''b'', PInt 2), (''a'', PInt 1)] \<and>
   wrapper add_ab
      (state_of (wrapper add_ab (cache_decorator None 10 ()) 0 0 []
         [(''a'', PInt 1), (''b'', PInt 2)]))
      1 1 [] [(''b'', PInt 2), (''a'', PInt 1)] =
     Inr (PInt 3,
          \<lparr>cache = \<lparr>max_size = 10, ttl = None,
               store = [(PTuple [PTuple [],
                          PTuple [PTuple [PStr ''a'', PInt 1], PTuple [PStr ''b'', PInt 2]]],
                         (PInt 3, None))],
               hits = 1, misses = 1, evictions = 0\<rparr>,
           world = (), invocations = [([], [(''a'', PInt 1), (''b'', PInt 2)])]\<rparr>) \<and>
   make_hashable (PDict [(KStr ''b'', PInt 2), (KStr ''a'', PInt 1)]) =
     make_hashable (PDict [(KStr ''a'', PInt 1), (KStr ''b'', PInt 2)]) \<and>
   make_hashable (PDict [(KStr ''b'', PInt 2), (KStr ''a'', PInt 1)]) =
     Inr (PTuple [PTuple [PStr ''a'', PInt 1], PTuple [PStr ''b'', PInt 2]])"
proof -
  have s1: "state_of (wrapper add_ab (cache_decorator None 10 ()) 0 0 []
         [(''a'', PInt 1), (''b'', PInt 2)]) =
      \<lparr>cache = \<lparr>max_size = 10, ttl = None,
               store = [(PTuple [PTuple [],
                          PTuple [PTuple [PStr ''a'', PInt 1], PTuple [PStr ''b'', PInt 2]]],
                         (PInt 3, None))],
               hits = 0, misses = 1, evictions = 0\<rparr>,
           world = (), invocations = [([], [(''a'', PInt 1), (''b'', PInt 2)])]\<rparr>"
    using two_calls_reordered[of 0 0] by (simp add: state_of_def)
  have k1: "make_key [] [(''a'', PInt 1), (''b'', PInt 2)] =
      Inr (PTuple [PTuple [], PTuple [PTuple [PStr ''a'', PInt 1], PTuple [PStr ''b'', PInt 2]]])"
    by (simp add: key_defs)
  have d: "make_hashable (PDict [(KStr ''b'', PInt 2), (KStr ''a'', PInt 1)]) =
     Inr (PTuple [PTuple [PStr ''a'', PInt 1], PTuple [PStr ''b'', PInt 2]])"
    by (simp add: key_defs)
  have m: "mset [(''a'', PInt 1), (''b'', PInt 2)] = mset [(''b'', PInt 2), (''a'', PInt 1)]"
    by (simp add: add_mset_commute)
  have dd: "distinct (map fst [(''a'', PInt 1), (''b'', PInt 2)])" by simp
  note w = keyword_order_independence[OF dd m,
      where args = "[]" and func = add_ab and tg = 1 and ts = 1
        and key = "PTuple [PTuple [], PTuple [PTuple [PStr ''a'', PInt 1], PTuple [PStr ''b'', PInt 2]]]"
        and v = "PInt 3" and e = None
        and st = "state_of (wrapper add_ab (cache_decorator None 10 ()) 0 0 []
         [(''a'', PInt 1), (''b'', PInt 2)])"
        and ?d1.0 = "[(KStr ''b'', PInt 2), (KStr ''a'', PInt 1)]"
        and ?d2.0 = "[(KStr ''a'', PInt 1), (KStr ''b'', PInt 2)]"
        and r = "PTuple [PTuple [PStr ''a'', PInt 1], PTuple [PStr ''b'', PInt 2]]"]
  have "wrapper add_ab
      (state_of (wrapper add_ab (cache_decorator None 10 ()) 0 0 []
         [(''a'', PInt 1), (''b'', PInt 2)]))
      1 1 [] [(''b'', PInt 2), (''a'', PInt 1)] =
     Inr (PInt 3,
          \<lparr>cache = \<lparr>max_size = 10, ttl = None,
               store = [(PTuple [PTuple [],
                          PTuple [PTuple [PStr ''a'', PInt 1], PTuple [PStr ''b'', PInt 2]]],
                         (PInt 3, None))],
               hits = 1, misses = 1, evictions = 0\<rparr>,
           world = (), invocations = [([], [(''a'', PInt 1), (''b'', PInt 2)])]\<rparr>)"
    using w k1 by (simp add: s1 is_expired_def od_remove_def)
  moreover have "make_hashable (PDict [(KStr ''b'', PInt 2), (KStr ''a'', PInt 1)]) =
     make_hashable (PDict [(KStr ''a'', PInt 1), (KStr ''b'', PInt 2)])"
    using w by (simp add: add_mset_commute del: make_hashable.simps)
  ultimately show ?thesis using w dd m d by simp
qed

text \<open>
  C8. \<open>clear\<close> removes every entry, so that \<open>stats\<close> reports \<open>current_size\<close> 0, and leaves
  \<open>hits\<close>, \<open>misses\<close> and \<open>evictions\<close> as they were, in the engine and in what \<open>stats\<close>
  reports. After \<open>set(a, 1); get(a); clear()\<close> on an engine of capacity 2, \<open>stats\<close> is
  hits 1, misses 0, evictions 0, current_size 0.
\<close>

theorem clear_preserves_counters:
  "store (LRUCache_clear c) = [] \<and>
   map_of (LRUCache_stats (LRUCache_clear c)) ''current_size'' = Some 0 \<and>
   hits (LRUCache_clear c) = hits c \<and>
   misses (LRUCache_clear c) = misses c \<and>
   evictions (LRUCache_clear c) = evictions c \<and>
   map_of (LRUCache_stats (LRUCache_clear c)) ''hits'' = map_of (LRUCache_stats c) ''hits'' \<and>
   map_of (LRUCache_stats (LRUCache_clear c)) ''misses'' = map_of (LRUCache_stats c) ''misses'' \<and>
   map_of (LRUCache_stats (LRUCache_clear c)) ''evictions'' =
     map_of (LRUCache_stats c) ''evictions'' \<and>
   map_sum id LRUCache_stats
       (run (LRUCache_init 2 None) [Set t1 ''a'' (1::int), Get t2 ''a'', Clear]) =
     Inr [(''hits'', 1), (''misses'', 0), (''evictions'', 0), (''current_size'', 0)]"
  by (simp add: engine_defs)

theorem clear_preserves_counters_witness:
  "store (LRUCache_clear
      (LRUCache_init 2 None\<lparr>store := [(''a'', (1::int, None))], hits := 1\<rparr>)) = [] \<and>
   hits (LRUCache_clear
      (LRUCache_init 2 None\<lparr>store := [(''a'', (1::int, None))], hits := 1\<rparr>)) = 1"
  using clear_preserves_counters
    [of "LRUCache_init 2 None\<lparr>store := [(''a'', (1::int, None))], hits := 1\<rparr>"]
  by (simp add: LRUCache_init_def)




text \<open>
  C10 says that on an engine whose \<open>max_size\<close> is negative every \<open>resize\<close> call raises. The
  code does not do so: \<open>resize\<close> stores the new capacity before the eviction loop runs, so
  on an engine built with \<open>max_size = -1\<close> the call \<open>resize(1)\<close> returns normally, with or
  without entries in the store.
\<close>

theorem negative_capacity_raises_counterexample:
  "max_size (LRUCache_init (- 1) None :: (string, int) LRUCache) < 0 \<and>
   LRUCache_resize (LRUCache_init (- 1) None :: (string, int) LRUCache) 1 =
     Inr (LRUCache_init 1 None) \<and>
   LRUCache_resize (LRUCache_init (- 1) None\<lparr>store := [(''a'', (1::int, None))]\<rparr>) 1 =
     Inr (LRUCache_init 1 None\<lparr>store := [(''a'', (1::int, None))]\<rparr>)"
  by (simp add: engine_defs)

text \<open>
  C10, as the code has it. When \<open>max_size\<close> is negative the eviction loop empties the
  store, counting every entry as an eviction, and then raises \<open>KeyError\<close> from \<open>popitem\<close> on
  the empty dictionary. So every \<open>set\<close> on an engine whose \<open>max_size\<close> is negative raises,
  and so does every \<open>resize\<close> to a negative capacity, on any engine. When the capacity the
  loop runs with is 0 or more, the loop returns normally, and so do \<open>set\<close> on an engine
  with such a \<open>max_size\<close> and \<open>resize\<close> to such a capacity, whatever \<open>max_size\<close> was before.
  The loop is a total function: it terminates on every engine.
\<close>

theorem negative_capacity_raises:
  "(max_size c < 0 \<longrightarrow>
      evict_if_needed c =
        Inl (KeyError, c\<lparr>store := [], evictions := evictions c + int (length (store c))\<rparr>) \<and>
      (\<exists>c'. LRUCache_set c now k v = Inl (KeyError, c') \<and> store c' = [])) \<and>
   (n < 0 \<longrightarrow>
      (\<exists>c'. LRUCache_resize c n = Inl (KeyError, c') \<and> store c' = [] \<and> max_size c' = n)) \<and>
   (0 \<le> max_size c \<longrightarrow>
      (\<exists>c'. evict_if_needed c = Inr c') \<and> (\<exists>c'. LRUCache_set c now k v = Inr c')) \<and>
   (0 \<le> n \<longrightarrow> (\<exists>c'. LRUCache_resize c n = Inr c'))"
proof (intro conjI impI)
  assume "max_size c < 0"
  then show "evict_if_needed c =
      Inl (KeyError, c\<lparr>store := [], evictions := evictions c + int (length (store c))\<rparr>)"
    by (rule evict_neg)
next
  assume "max_size c < 0"
  then show "\<exists>c'. LRUCache_set c now k v = Inl (KeyError, c') \<and> store c' = []"
    by (simp add: set_neg)
next
  assume "n < 0"
  then show "\<exists>c'. LRUCache_resize c n = Inl (KeyError, c') \<and> store c' = [] \<and> max_size c' = n"
    by (simp add: resize_neg)
next
  assume "0 \<le> max_size c"
  then show "\<exists>c'. evict_if_needed c = Inr c'"
    by (simp add: evict_nonneg)
next
  assume "0 \<le> max_size c"
  then show "\<exists>c'. LRUCache_set c now k v = Inr c'"
    using set_within[of c now k v] by blast
next
  assume "0 \<le> n"
  then show "\<exists>c'. LRUCache_resize c n = Inr c'"
    using resize_within[of n c] by blast
qed

theorem negative_capacity_raises_witness:
  "evict_if_needed (LRUCache_init (- 1) None\<lparr>store := [(''a'', (1::int, None))]\<rparr>) =
     Inl (KeyError, LRUCache_init (- 1) None\<lparr>evictions := 1\<rparr>) \<and>
   (\<exists>c'. LRUCache_set (LRUCache_init (- 1) None\<lparr>store := [(''a'', (1::int, None))]\<rparr>) 0 ''b'' 2
        = Inl (KeyError, c') \<and> store c' = []) \<and>
   (\<exists>c'. LRUCache_resize (LRUCache_init (- 1) None\<lparr>store := [(''a'', (1::int, None))]\<rparr>) (- 2)
        = Inl (KeyError, c') \<and> store c' = [] \<and> max_size c' = - 2) \<and>
   (\<exists>c'. evict_if_needed (LRUCache_init 0 None\<lparr>store := [(''a'', (1::int, None))]\<rparr>) = Inr c') \<and>
   (\<exists>c'. LRUCache_set (LRUCache_init 0 None\<lparr>store := [(''a'', (1::int, None))]\<rparr>) 0 ''b'' 2
        = Inr c') \<and>
   (\<exists>c'. LRUCache_resize (LRUCache_init 0 None\<lparr>store := [(''a'', (1::int, None))]\<rparr>) 0
        = Inr c')"
  using negative_capacity_raises
      [where c = "LRUCache_init (- 1) None\<lparr>store := [(''a'', (1::int, None))]\<rparr>"
         and now = 0 and k = "''b''" and v = 2 and n = "- 2"]
    negative_capacity_raises
      [where c = "LRUCache_init 0 None\<lparr>store := [(''a'', (1::int, None))]\<rparr>"
         and now = 0 and k = "''b''" and v = 2 and n = 0]
  by (simp add: LRUCache_init_def)

end
